theory Spec2Isabelle
  imports
    Main
    "HOL-Library.Multiset"
    "HOL-Library.Char_ord"
    "HOL-Library.List_Lexorder"
    "HOL-Library.Product_Lexorder"
begin

section \<open>The structure splitter of the molecular-dynamics tutorial\<close>

text \<open>
  The notebook \<^verbatim>\<open>03_Ensembles/HW-05.ipynb\<close> defines one function with logic of its own:
  \<^verbatim>\<open>
  def split_pdb(fn_pdb):
      pos = 16
      groups = {}
      counter = 0
      with open(fn_pdb) as f:
          for line in f:
              if line.startswith("ATOM"):
                  state = line[pos]
                  line = line[:pos] + " " + line[pos+1:]
                  groups.setdefault(state, []).append((counter, line))
                  counter += 1
      for key, lines_group in groups.items():
          if key == " ":
              continue
          lines_both = lines_group + groups[" "]
          lines_both.sort()
          with open("{}_{}.pdb".format(fn_pdb[:-4], key.lower()), "w") as f:
              for counter, line in lines_both:
                  f.write(line)
  \<close>
  Everything else in the notebook is a sequence of calls into an external simulation
  engine and into plotting libraries.
\<close>

subsection \<open>Text, files and exceptions\<close>

text \<open>
  A Python string is a list of characters; a character is a code point below 256 here
  (\<^typ>\<open>char\<close>). The text of a file is what Python's text layer hands to the program,
  after decoding and newline translation, so the only line terminator is the character
  with code 10. A file system is a flat map from path names to texts: it holds the
  paths that can be opened for reading, and distinct strings name distinct files. Links
  are not part of the model.
\<close>

datatype py_error =
  FileNotFoundError | IndexError | KeyError | ValueError | PermissionError | IsADirectoryError

type_synonym fs = "string \<rightharpoonup> string"

text \<open>
  \<^verbatim>\<open>open(path, "w")\<close> can fail. Python itself refuses a path with a character of code
  0 with \<^verbatim>\<open>ValueError\<close>. The operating system refuses others: a path in a directory
  that does not exist, as the output path of the marker \<^verbatim>\<open>/\<close> is, a path that is a
  directory, a path without permission. What the operating system answers for a path is
  a parameter of the model, \<open>None\<close> when it opens the file; the answer depends on the
  path alone, since the function creates no directory and changes no permission. A
  refused \<^verbatim>\<open>open\<close> leaves the files as they are.
\<close>

type_synonym write_env = "string \<Rightarrow> py_error option"

definition open_w :: "write_env \<Rightarrow> string \<Rightarrow> py_error option" where
  "open_w env path = (if CHR 0x00 \<in> set path then Some ValueError else env path)"

text \<open>
  Two operating systems: one that opens every path, and one whose working directory has
  no subdirectory, so that it refuses every path with a slash.
\<close>

definition permissive :: write_env where
  "permissive path = None"

definition no_subdirectory :: write_env where
  "no_subdirectory path = (if CHR ''/'' \<in> set path then Some FileNotFoundError else None)"

text \<open>
  The input and output the function performs is recorded next to the files: \<open>Read p\<close>
  for \<^verbatim>\<open>open(p)\<close> followed by the iteration over its lines, \<open>Write p ls\<close> for
  \<^verbatim>\<open>open(p, "w")\<close> followed by one \<^verbatim>\<open>f.write\<close> for each string of \<open>ls\<close>.
\<close>

datatype event = Read string | Write string "string list"

record io_state =
  files :: fs
  trace :: "event list"

text \<open>\<^verbatim>\<open>for line in f\<close>: the lines of a text, each with its terminator; the last line
  may lack one.\<close>

fun file_lines_from :: "string \<Rightarrow> string \<Rightarrow> string list" where
  "file_lines_from cur [] = (if cur = [] then [] else [cur])"
| "file_lines_from cur (c # cs) =
     (if c = CHR 0x0A then (cur @ [c]) # file_lines_from [] cs
      else file_lines_from (cur @ [c]) cs)"

definition file_lines :: "string \<Rightarrow> string list" where
  "file_lines text = file_lines_from [] text"

text \<open>\<^verbatim>\<open>s.startswith(prefix)\<close>\<close>

definition startswith :: "string \<Rightarrow> string \<Rightarrow> bool" where
  "startswith s prefix = (take (length prefix) s = prefix)"

text \<open>
  \<^verbatim>\<open>s.lower()\<close> on code points below 256: the letters A to Z and the capital letters
  of Latin-1 (192 to 222 without the multiplication sign 215) move up by 32, every
  other character stays.
\<close>

definition lower_char :: "char \<Rightarrow> char" where
  "lower_char c =
     (let n = (of_char c :: nat)
      in if (65 \<le> n \<and> n \<le> 90) \<or> (192 \<le> n \<and> n \<le> 222 \<and> n \<noteq> 215)
         then char_of (n + 32) else c)"

definition lower :: "string \<Rightarrow> string" where
  "lower s = map lower_char s"

subsection \<open>The dictionary of groups\<close>

text \<open>
  An entry is the pair \<^verbatim>\<open>(counter, line)\<close>. The dictionary \<^verbatim>\<open>groups\<close> keeps its keys
  in insertion order (the notebook runs on Python 3.7), which the second loop iterates
  over, so it is an association list with the newest key last.
\<close>

type_synonym entry = "nat \<times> string"

type_synonym groups = "(char \<times> entry list) list"

text \<open>\<^verbatim>\<open>groups.setdefault(state, []).append(r)\<close>\<close>

fun setdefault_append :: "groups \<Rightarrow> char \<Rightarrow> entry \<Rightarrow> groups" where
  "setdefault_append [] state r = [(state, [r])]"
| "setdefault_append ((k, rs) # g) state r =
     (if k = state then (k, rs @ [r]) # g else (k, rs) # setdefault_append g state r)"

subsection \<open>\<^verbatim>\<open>split_pdb\<close>\<close>

definition pos :: nat where
  "pos = 16"

text \<open>
  The first loop. \<^verbatim>\<open>line[pos]\<close> raises \<^verbatim>\<open>IndexError\<close> on a line of at most
  \<open>pos\<close> characters; the slices never raise.
\<close>

fun read_loop :: "string list \<Rightarrow> groups \<Rightarrow> nat \<Rightarrow> py_error + groups" where
  "read_loop [] groups counter = Inr groups"
| "read_loop (line # rest) groups counter =
     (if startswith line ''ATOM'' then
        (if length line \<le> pos then Inl IndexError
         else
           let state = line ! pos;
               line' = take pos line @ '' '' @ drop (pos + 1) line
           in read_loop rest (setdefault_append groups state (counter, line')) (counter + 1))
      else read_loop rest groups counter)"

text \<open>\<^verbatim>\<open>"{}_{}.pdb".format(fn_pdb[:-4], key.lower())\<close>; the slice \<^verbatim>\<open>fn_pdb[:-4]\<close> of a
  name shorter than four characters is empty.\<close>

definition out_name :: "string \<Rightarrow> char \<Rightarrow> string" where
  "out_name fn_pdb key =
     take (length fn_pdb - 4) fn_pdb @ ''_'' @ lower [key] @ ''.pdb''"

definition write_file :: "string \<Rightarrow> string list \<Rightarrow> io_state \<Rightarrow> io_state" where
  "write_file path ls st =
     st\<lparr>files := (files st)(path \<mapsto> concat ls), trace := trace st @ [Write path ls]\<rparr>"

text \<open>
  The second loop, over the items that are left, with the whole dictionary at hand for
  \<^verbatim>\<open>groups[" "]\<close>, which raises \<^verbatim>\<open>KeyError\<close> when the key is missing. The sort
  compares the tuples \<^verbatim>\<open>(counter, line)\<close>, first by counter, then by line. A refused
  \<^verbatim>\<open>open\<close> ends the call after the writes made so far.
\<close>

fun write_loop ::
  "write_env \<Rightarrow> string \<Rightarrow> groups \<Rightarrow> groups \<Rightarrow> io_state \<Rightarrow> io_state \<times> py_error option"
where
  "write_loop env fn_pdb groups [] st = (st, None)"
| "write_loop env fn_pdb groups ((key, lines_group) # items) st =
     (if key = CHR '' '' then write_loop env fn_pdb groups items st
      else
        (case map_of groups (CHR '' '') of
           None \<Rightarrow> (st, Some KeyError)
         | Some lines_default \<Rightarrow>
             let lines_both = sort (lines_group @ lines_default);
                 path = out_name fn_pdb key
             in (case open_w env path of
                   Some e \<Rightarrow> (st, Some e)
                 | None \<Rightarrow>
                     write_loop env fn_pdb groups items
                       (write_file path (map snd lines_both) st))))"

text \<open>
  The function, run on a file system: the final files, what was read and written, and
  the exception that ended the call, if any.
\<close>

definition split_pdb :: "write_env \<Rightarrow> fs \<Rightarrow> string \<Rightarrow> io_state \<times> py_error option" where
  "split_pdb env fs0 fn_pdb =
     (case fs0 fn_pdb of
        None \<Rightarrow> (\<lparr>files = fs0, trace = []\<rparr>, Some FileNotFoundError)
      | Some text \<Rightarrow>
          (case read_loop (file_lines text) [] 0 of
             Inl e \<Rightarrow> (\<lparr>files = fs0, trace = [Read fn_pdb]\<rparr>, Some e)
           | Inr groups \<Rightarrow>
               write_loop env fn_pdb groups groups \<lparr>files = fs0, trace = [Read fn_pdb]\<rparr>))"

subsection \<open>Notions the properties are stated with\<close>

text \<open>
  The ATOM records of a text are its lines that start with \<^verbatim>\<open>ATOM\<close>, in file order.
  The alternate-location marker of a record is its character at index \<open>pos\<close>; a line
  too short to have one carries no marker. The default group is the group of the blank
  marker.
\<close>

abbreviation is_atom :: "string \<Rightarrow> bool" where
  "is_atom l \<equiv> startswith l ''ATOM''"

definition atom_lines :: "string \<Rightarrow> string list" where
  "atom_lines text = filter is_atom (file_lines text)"

definition blank_marker :: "string \<Rightarrow> string" where
  "blank_marker l = l[pos := CHR '' '']"

definition alt_markers :: "string \<Rightarrow> char list" where
  "alt_markers text = map (\<lambda>l. l ! pos) (filter (\<lambda>l. pos < length l) (atom_lines text))"

definition nondefault_markers :: "string \<Rightarrow> char set" where
  "nondefault_markers text = set (filter (\<lambda>m. m \<noteq> CHR '' '') (alt_markers text))"

text \<open>The markers in the order of their first occurrence in the file.\<close>

definition key_order :: "string \<Rightarrow> char list" where
  "key_order text = rev (remdups (rev (alt_markers text)))"

text \<open>
  The records of the default group and of the group of \<open>m\<close>, in file order, each with
  its marker blanked.
\<close>

definition merged :: "string \<Rightarrow> char \<Rightarrow> string list" where
  "merged text m =
     map blank_marker
       (filter (\<lambda>l. pos < length l \<and> (l ! pos = m \<or> l ! pos = CHR '' '')) (atom_lines text))"

definition outputs :: "string \<Rightarrow> string \<Rightarrow> (string \<times> string list) list" where
  "outputs fn text =
     map (\<lambda>m. (out_name fn m, merged text m)) (filter (\<lambda>m. m \<noteq> CHR '' '') (key_order text))"

text \<open>The paths a trace has read and written, in the order of the events.\<close>

fun read_paths :: "event list \<Rightarrow> string list" where
  "read_paths [] = []"
| "read_paths (Read p # es) = p # read_paths es"
| "read_paths (Write p ls # es) = read_paths es"

fun written_paths :: "event list \<Rightarrow> string list" where
  "written_paths [] = []"
| "written_paths (Read p # es) = written_paths es"
| "written_paths (Write p ls # es) = p # written_paths es"

subsection \<open>Auxiliary notions of the proofs\<close>

text \<open>
  What the first loop appends, as a list of pairs of key and entry; the dictionary such
  a list builds; a list of writes performed in sequence, on the state and on the files
  alone; the writes of a list that are performed before an \<^verbatim>\<open>open\<close> is refused, and
  the exception of the refusal.
\<close>

fun tagged :: "nat \<Rightarrow> string list \<Rightarrow> (char \<times> entry) list" where
  "tagged c [] = []"
| "tagged c (l # ls) = (l ! pos, (c, blank_marker l)) # tagged (Suc c) ls"

definition build :: "(char \<times> entry) list \<Rightarrow> groups" where
  "build evs = foldl (\<lambda>g (k, r). setdefault_append g k r) [] evs"

definition write_all :: "io_state \<Rightarrow> (string \<times> string list) list \<Rightarrow> io_state" where
  "write_all st ws = foldl (\<lambda>st (p, ls). write_file p ls st) st ws"

definition apply_writes :: "fs \<Rightarrow> (string \<times> string list) list \<Rightarrow> fs" where
  "apply_writes f ws = foldl (\<lambda>f (p, ls). f(p \<mapsto> concat ls)) f ws"

definition opens :: "write_env \<Rightarrow> string \<times> string list \<Rightarrow> bool" where
  "opens env w = (open_w env (fst w) = None)"

definition refusal :: "write_env \<Rightarrow> (string \<times> string list) list \<Rightarrow> py_error option" where
  "refusal env ws = (case dropWhile (opens env) ws of [] \<Rightarrow> None | w # _ \<Rightarrow> open_w env (fst w))"

definition performed :: "write_env \<Rightarrow> string \<Rightarrow> string \<Rightarrow> (string \<times> string list) list" where
  "performed env fn text =
     (if list_all (\<lambda>l. pos < length l) (atom_lines text) \<and> CHR '' '' \<in> set (alt_markers text)
      then takeWhile (opens env) (outputs fn text) else [])"

definition raised :: "write_env \<Rightarrow> string \<Rightarrow> string \<Rightarrow> py_error option" where
  "raised env fn text =
     (if list_ex (\<lambda>l. length l \<le> pos) (atom_lines text) then Some IndexError
      else if CHR '' '' \<in> set (alt_markers text) then refusal env (outputs fn text)
      else if alt_markers text = [] then None
      else Some KeyError)"

subsection \<open>Sample inputs\<close>

text \<open>
  Small texts in the layout of the notebook's input file, for running the function:
  with two alternate locations, with none, with an alternate location and no default
  group, and with the alternate locations \<open>A\<close> and \<open>a\<close>.
\<close>

definition two_states :: string where
  "two_states =
     ''HEADER\<newline>ATOM      1  N   LEU\<newline>ATOM      2  CA ALEU\<newline>ATOM      3  CA BLEU\<newline>ATOM      4  C   LEU\<newline>''"

definition no_alternates :: string where
  "no_alternates = ''HEADER\<newline>ATOM      1  N   LEU\<newline>ATOM      4  C   LEU\<newline>END\<newline>''"

definition only_alternate :: string where
  "only_alternate = ''HEADER\<newline>ATOM      2  CA ALEU\<newline>''"

definition case_clash :: string where
  "case_clash = ''ATOM      1  N   LEU\<newline>ATOM      2  CA ALEU\<newline>ATOM      3  CA aLEU\<newline>''"

section \<open>The two loops\<close>

lemma keys_setdefault_append:
  "map fst (setdefault_append g k r) = (if k \<in> set (map fst g) then map fst g else map fst g @ [k])"
  by (induction g k r rule: setdefault_append.induct) auto

lemma map_of_setdefault_append:
  "map_of (setdefault_append g k r) =
     (map_of g)(k \<mapsto> (case map_of g k of None \<Rightarrow> [r] | Some rs \<Rightarrow> rs @ [r]))"
  by (induction g k r rule: setdefault_append.induct) (auto simp: fun_eq_iff)

lemma blank_slices:
  "pos < length l \<Longrightarrow> take pos l @ CHR '' '' # drop (Suc pos) l = blank_marker l"
  by (simp add: blank_marker_def upd_conv_take_nth_drop)

lemma read_loop_foldl:
  "read_loop ls g c =
     (if \<forall>l \<in> set (filter is_atom ls). pos < length l
      then Inr (foldl (\<lambda>g (k, r). setdefault_append g k r) g (tagged c (filter is_atom ls)))
      else Inl IndexError)"
proof (induction ls arbitrary: g c)
  case Nil
  show ?case by simp
next
  case (Cons l ls)
  show ?case
  proof (cases "is_atom l")
    case False
    then show ?thesis using Cons.IH [of g c] by simp
  next
    case True
    show ?thesis
    proof (cases "pos < length l")
      case False
      with True show ?thesis by auto
    next
      case long: True
      with True show ?thesis
        using Cons.IH [of "setdefault_append g (l ! pos) (c, blank_marker l)" "Suc c"]
        by (simp add: blank_slices Let_def)
    qed
  qed
qed

lemma build_snoc: "build (evs @ [(k, r)]) = setdefault_append (build evs) k r"
  by (simp add: build_def)

lemma keys_build: "map fst (build evs) = rev (remdups (rev (map fst evs)))"
proof (induction evs rule: rev_induct)
  case Nil
  show ?case by (simp add: build_def)
next
  case (snoc e evs)
  obtain k r where e: "e = (k, r)" by (cases e)
  show ?case using snoc.IH by (simp add: e build_snoc keys_setdefault_append)
qed

lemma map_of_build:
  "map_of (build evs) k =
     (if k \<in> set (map fst evs) then Some (map snd (filter (\<lambda>e. fst e = k) evs)) else None)"
proof (induction evs rule: rev_induct)
  case Nil
  show ?case by (simp add: build_def)
next
  case (snoc e evs)
  obtain k' r where e: "e = (k', r)" by (cases e)
  show ?case using snoc.IH by (force simp: e build_snoc map_of_setdefault_append filter_empty_conv)
qed

lemma distinct_keys_build: "distinct (map fst (build evs))"
  by (simp add: keys_build)

lemma build_entry:
  assumes "(k, rs) \<in> set (build evs)"
  shows "rs = map snd (filter (\<lambda>e. fst e = k) evs)"
proof -
  have "map_of (build evs) k = Some rs"
    using assms distinct_keys_build by (simp add: map_of_eq_Some_iff)
  then show ?thesis by (simp add: map_of_build split: if_splits)
qed


lemma write_all_snoc: "write_all st (ws @ [(p, ls)]) = write_file p ls (write_all st ws)"
  by (simp add: write_all_def)

lemma apply_writes_snoc: "apply_writes f (ws @ [(p, ls)]) = (apply_writes f ws)(p \<mapsto> concat ls)"
  by (simp add: apply_writes_def)

lemma write_all_eq:
  "write_all st ws =
     \<lparr>files = apply_writes (files st) ws, trace = trace st @ map (\<lambda>(p, ls). Write p ls) ws\<rparr>"
proof (induction ws rule: rev_induct)
  case Nil
  show ?case by (simp add: write_all_def apply_writes_def)
next
  case (snoc w ws)
  obtain p ls where w: "w = (p, ls)" by (cases w)
  show ?case by (simp add: w write_all_snoc apply_writes_snoc snoc.IH write_file_def fun_upd_def)
qed

lemma write_loop_default:
  assumes "map_of G (CHR '' '') = Some d"
  shows "write_loop env fn G items st =
     (write_all st (takeWhile (opens env)
        (map (\<lambda>(k, rs). (out_name fn k, map snd (sort (rs @ d))))
           (filter (\<lambda>(k, rs). k \<noteq> CHR '' '') items))),
      refusal env
        (map (\<lambda>(k, rs). (out_name fn k, map snd (sort (rs @ d))))
           (filter (\<lambda>(k, rs). k \<noteq> CHR '' '') items)))"
  using assms
  by (induction items arbitrary: st) (auto simp: write_all_def opens_def refusal_def)

lemma write_loop_no_default:
  assumes "map_of G (CHR '' '') = None"
  shows "write_loop env fn G items st =
     (st, if \<forall>kv \<in> set items. fst kv = CHR '' '' then None else Some KeyError)"
  using assms
  by (induction items arbitrary: st) fastforce+

lemma fst_tagged: "map fst (tagged c ls) = map (\<lambda>l. l ! pos) ls"
  by (induction ls arbitrary: c) auto

lemma counters_tagged: "map (\<lambda>e. fst (snd e)) (tagged c ls) = [c..<c + length ls]"
proof (induction ls arbitrary: c)
  case Nil
  show ?case by simp
next
  case (Cons l ls)
  have "[c..<c + length (l # ls)] = c # [Suc c..<c + length (l # ls)]"
    by (rule upt_conv_Cons) simp
  moreover have "c + length (l # ls) = Suc c + length ls"
    by simp
  ultimately have "[c..<c + length (l # ls)] = c # [Suc c..<Suc c + length ls]"
    by (simp only:)
  then show ?case using Cons.IH [of "Suc c"] by (simp only: tagged.simps list.map fst_conv snd_conv)
qed

lemma lines_tagged:
  "map (\<lambda>e. snd (snd e)) (filter (\<lambda>e. Q (fst e)) (tagged c ls)) =
     map blank_marker (filter (\<lambda>l. Q (l ! pos)) ls)"
  by (induction ls arbitrary: c) auto

lemma sorted_wrt_tagged: "sorted_wrt (\<lambda>a b. fst (snd a) < fst (snd b)) (tagged c ls)"
proof -
  have "sorted_wrt (<) (map (\<lambda>e. fst (snd e)) (tagged c ls))"
    by (simp add: counters_tagged)
  then show ?thesis by (simp add: sorted_wrt_map)
qed

lemma sorted_entries:
  fixes es :: "entry list"
  assumes "sorted_wrt (\<lambda>a b. fst a < fst b) es"
  shows "sorted es"
  using assms by (rule sorted_wrt_mono_rel [rotated]) (auto simp: less_eq_prod_def)

lemma sorted_selection: "sorted (map snd (filter P (tagged c ls)))"
proof -
  have "sorted_wrt (\<lambda>a b. fst (snd a) < fst (snd b)) (filter P (tagged c ls))"
    by (rule sorted_wrt_filter) (rule sorted_wrt_tagged)
  then have "sorted_wrt (\<lambda>a b. fst a < fst b) (map snd (filter P (tagged c ls)))"
    by (simp add: sorted_wrt_map)
  then show ?thesis by (rule sorted_entries)
qed

lemma mset_two_groups:
  assumes "k \<noteq> b"
  shows "mset (map snd (filter (\<lambda>e. fst e = k) evs) @ map snd (filter (\<lambda>e. fst e = b) evs)) =
         mset (map snd (filter (\<lambda>e. fst e = k \<or> fst e = b) evs))"
  using assms by (induction evs) auto

lemma sort_two_groups:
  assumes "k \<noteq> b"
  shows "sort (map snd (filter (\<lambda>e. fst e = k) (tagged c ls)) @
               map snd (filter (\<lambda>e. fst e = b) (tagged c ls))) =
         map snd (filter (\<lambda>e. fst e = k \<or> fst e = b) (tagged c ls))"
  by (rule properties_for_sort) (simp_all only: mset_two_groups [OF assms] sorted_selection)


lemma merged_entry:
  assumes long: "\<forall>l \<in> set ls. pos < length l"
    and entry: "(k, rs) \<in> set (build (tagged 0 ls))"
    and dflt: "map_of (build (tagged 0 ls)) (CHR '' '') = Some d"
    and k: "k \<noteq> CHR '' ''"
  shows "map snd (sort (rs @ d)) =
         map blank_marker (filter (\<lambda>l. pos < length l \<and> (l ! pos = k \<or> l ! pos = CHR '' '')) ls)"
proof -
  let ?evs = "tagged 0 ls"
  have rs: "rs = map snd (filter (\<lambda>e. fst e = k) ?evs)"
    using entry by (rule build_entry)
  have d: "d = map snd (filter (\<lambda>e. fst e = CHR '' '') ?evs)"
    using dflt by (simp add: map_of_build split: if_splits)
  have "sort (rs @ d) = map snd (filter (\<lambda>e. fst e = k \<or> fst e = CHR '' '') ?evs)"
    unfolding rs d using k by (rule sort_two_groups)
  then have "map snd (sort (rs @ d)) =
      map (\<lambda>e. snd (snd e)) (filter (\<lambda>e. fst e = k \<or> fst e = CHR '' '') ?evs)"
    by simp
  also have "\<dots> = map blank_marker (filter (\<lambda>l. l ! pos = k \<or> l ! pos = CHR '' '') ls)"
    by (rule lines_tagged [where Q = "\<lambda>m. m = k \<or> m = CHR '' ''"])
  also have "filter (\<lambda>l. l ! pos = k \<or> l ! pos = CHR '' '') ls =
      filter (\<lambda>l. pos < length l \<and> (l ! pos = k \<or> l ! pos = CHR '' '')) ls"
    using long by (intro filter_cong) auto
  finally show ?thesis .
qed

lemma split_pdb_eq:
  assumes "fs0 fn = Some text"
  shows "split_pdb env fs0 fn =
    (if \<exists>l \<in> set (atom_lines text). length l \<le> pos
     then (\<lparr>files = fs0, trace = [Read fn]\<rparr>, Some IndexError)
     else if CHR '' '' \<in> set (alt_markers text)
     then (\<lparr>files = apply_writes fs0 (takeWhile (opens env) (outputs fn text)),
            trace = Read fn #
              map (\<lambda>(p, ls). Write p ls) (takeWhile (opens env) (outputs fn text))\<rparr>,
           refusal env (outputs fn text))
     else (\<lparr>files = fs0, trace = [Read fn]\<rparr>,
           if alt_markers text = [] then None else Some KeyError))"
proof (cases "\<exists>l \<in> set (atom_lines text). length l \<le> pos")
  case True
  then have "\<not> (\<forall>l \<in> set (filter is_atom (file_lines text)). pos < length l)"
    by (auto simp: atom_lines_def)
  then have "read_loop (file_lines text) [] 0 = Inl IndexError"
    by (simp add: read_loop_foldl)
  with True assms show ?thesis by (simp add: split_pdb_def)
next
  case False
  let ?ls = "atom_lines text"
  let ?G = "build (tagged 0 ?ls)"
  let ?st = "\<lparr>files = fs0, trace = [Read fn]\<rparr>"
  from False have long: "\<forall>l \<in> set ?ls. pos < length l"
    by auto
  then have "\<forall>l \<in> set (filter is_atom (file_lines text)). pos < length l"
    by (simp add: atom_lines_def)
  then have "read_loop (file_lines text) [] 0 = Inr ?G"
    by (simp add: read_loop_foldl build_def atom_lines_def)
  with assms have run: "split_pdb env fs0 fn = write_loop env fn ?G ?G ?st"
    by (simp add: split_pdb_def)
  have markers: "alt_markers text = map (\<lambda>l. l ! pos) ?ls"
    using long by (simp add: alt_markers_def)
  have keys: "map fst ?G = key_order text"
    by (simp add: keys_build fst_tagged key_order_def markers)
  show ?thesis
  proof (cases "CHR '' '' \<in> set (alt_markers text)")
    case True
    then obtain d where d: "map_of ?G (CHR '' '') = Some d"
      by (simp add: map_of_build fst_tagged markers)
    have "map (\<lambda>(k, rs). (out_name fn k, map snd (sort (rs @ d))))
            (filter (\<lambda>(k, rs). k \<noteq> CHR '' '') ?G) =
          map (\<lambda>kv. (out_name fn (fst kv), merged text (fst kv)))
            (filter (\<lambda>kv. fst kv \<noteq> CHR '' '') ?G)"
    proof -
      have "\<And>k rs. (k, rs) \<in> set ?G \<Longrightarrow> k \<noteq> CHR '' '' \<Longrightarrow>
          map snd (sort (rs @ d)) = merged text k"
        unfolding merged_def by (rule merged_entry [OF long _ d])
      then show ?thesis
        by (auto simp: case_prod_unfold intro!: map_cong filter_cong)
    qed
    also have "\<dots> = outputs fn text"
      by (simp add: outputs_def keys [symmetric] filter_map comp_def)
    finally have "write_loop env fn ?G ?G ?st =
        (write_all ?st (takeWhile (opens env) (outputs fn text)), refusal env (outputs fn text))"
      using d by (simp only: write_loop_default)
    with True False run show ?thesis
      by (simp add: write_all_eq)
  next
    case no_default: False
    then have none: "map_of ?G (CHR '' '') = None"
      by (simp add: map_of_build fst_tagged markers)
    have "(\<forall>kv \<in> set ?G. fst kv = CHR '' '') \<longleftrightarrow> alt_markers text = []"
    proof -
      have "set (map fst ?G) = set (alt_markers text)"
        by (simp add: keys key_order_def)
      moreover have "(\<forall>kv \<in> set ?G. fst kv = CHR '' '') \<longleftrightarrow> set (map fst ?G) \<subseteq> {CHR '' ''}"
        by auto
      moreover have "set (alt_markers text) \<subseteq> {CHR '' ''} \<longleftrightarrow> alt_markers text = []"
        using no_default by (cases "alt_markers text") auto
      ultimately show ?thesis by (simp only:)
    qed
    with no_default False run show ?thesis
      by (simp add: write_loop_no_default [OF none])
  qed
qed

section \<open>What a call reads, writes and raises\<close>

lemma apply_writes_Nil: "apply_writes f [] = f"
  by (simp add: apply_writes_def)

lemma outputs_no_markers: "alt_markers text = [] \<Longrightarrow> outputs fn text = []"
  by (simp add: outputs_def key_order_def)

lemma split_pdb_run:
  assumes "fs0 fn = Some text"
  shows "split_pdb env fs0 fn =
    (\<lparr>files = apply_writes fs0 (performed env fn text),
      trace = Read fn # map (\<lambda>(p, ls). Write p ls) (performed env fn text)\<rparr>, raised env fn text)"
proof -
  have short: "list_ex (\<lambda>l. length l \<le> pos) (atom_lines text) \<longleftrightarrow>
      (\<exists>l \<in> set (atom_lines text). length l \<le> pos)"
    by (simp add: list_ex_iff)
  have long: "list_all (\<lambda>l. pos < length l) (atom_lines text) \<longleftrightarrow>
      \<not> (\<exists>l \<in> set (atom_lines text). length l \<le> pos)"
    by (auto simp: list_all_iff)
  show ?thesis
    using split_pdb_eq [of fs0 fn "text"] assms
    unfolding performed_def raised_def short long
    by (simp add: apply_writes_Nil outputs_no_markers)
qed

text \<open>
  A refused \<^verbatim>\<open>open\<close> ends the call after the writes made before it: here the marker
  \<^verbatim>\<open>/\<close> comes after the marker \<open>A\<close>.
\<close>

lemma split_pdb_refused_open:
  "split_pdb no_subdirectory
     [''1yrf.pdb'' \<mapsto> ''ATOM      1  N   LEU\<newline>ATOM      2  CA ALEU\<newline>ATOM      3  CA /LEU\<newline>'']
     ''1yrf.pdb'' =
   (\<lparr>files =
       [''1yrf.pdb'' \<mapsto> ''ATOM      1  N   LEU\<newline>ATOM      2  CA ALEU\<newline>ATOM      3  CA /LEU\<newline>'',
        ''1yrf_a.pdb'' \<mapsto> ''ATOM      1  N   LEU\<newline>ATOM      2  CA  LEU\<newline>''],
      trace =
        [Read ''1yrf.pdb'',
         Write ''1yrf_a.pdb'' [''ATOM      1  N   LEU\<newline>'', ''ATOM      2  CA  LEU\<newline>'']]\<rparr>,
    Some FileNotFoundError)"
proof -
  let ?t = "''ATOM      1  N   LEU\<newline>ATOM      2  CA ALEU\<newline>ATOM      3  CA /LEU\<newline>''"
  have ws: "performed no_subdirectory ''1yrf.pdb'' ?t =
      [(''1yrf_a.pdb'', [''ATOM      1  N   LEU\<newline>'', ''ATOM      2  CA  LEU\<newline>''])]"
    by code_simp
  have e: "raised no_subdirectory ''1yrf.pdb'' ?t = Some FileNotFoundError"
    by code_simp
  have "[''1yrf.pdb'' \<mapsto> ?t] ''1yrf.pdb'' = Some ?t"
    by simp
  then show ?thesis
    by (simp add: split_pdb_run [of "[''1yrf.pdb'' \<mapsto> ?t]" "''1yrf.pdb''" ?t] ws e
        apply_writes_def)
qed

lemma apply_writes_lookup:
  "apply_writes f ws p = (case map_of (rev ws) p of None \<Rightarrow> f p | Some ls \<Rightarrow> Some (concat ls))"
proof (induction ws rule: rev_induct)
  case Nil
  show ?case by (simp add: apply_writes_def)
next
  case (snoc w ws)
  obtain q ls where w: "w = (q, ls)" by (cases w)
  show ?case using snoc.IH by (simp add: w apply_writes_snoc)
qed

lemma apply_writes_twice: "apply_writes (apply_writes f ws) ws = apply_writes f ws"
  by (rule ext) (simp add: apply_writes_lookup split: option.splits)

lemma apply_writes_other:
  assumes "p \<notin> fst ` set ws"
  shows "apply_writes f ws p = f p"
proof -
  have "map_of (rev ws) p = None"
    using assms by (simp add: map_of_eq_None_iff)
  then show ?thesis by (simp add: apply_writes_lookup)
qed

lemma apply_writes_written:
  assumes "p \<in> fst ` set ws"
  shows "\<exists>ls. (p, ls) \<in> set ws \<and> apply_writes f ws p = Some (concat ls)"
proof -
  from assms obtain ls where "map_of (rev ws) p = Some ls"
    by (cases "map_of (rev ws) p") (auto simp: map_of_eq_None_iff)
  moreover from this have "(p, ls) \<in> set ws"
    by (auto dest: map_of_SomeD)
  ultimately show ?thesis by (auto simp: apply_writes_lookup)
qed

lemma length_lower: "length (lower s) = length s"
  by (simp add: lower_def)

lemma length_out_name: "length (out_name fn k) = length fn - 4 + 6"
  by (simp add: out_name_def length_lower)

lemma out_name_not_input: "out_name fn k \<noteq> fn"
proof
  assume "out_name fn k = fn"
  then have "length (out_name fn k) = length fn" by simp
  then show False by (simp add: length_out_name)
qed

lemma out_name_eq_iff: "out_name fn k = out_name fn k' \<longleftrightarrow> lower [k] = lower [k']"
  by (simp add: out_name_def lower_def)

lemma written_paths_writes: "written_paths (map (\<lambda>(p, ls). Write p ls) ws) = map fst ws"
  by (induction ws) auto

lemma read_paths_writes: "read_paths (map (\<lambda>(p, ls). Write p ls) ws) = []"
  by (induction ws) auto

lemma Write_in_writes: "Write p ls \<in> set (map (\<lambda>(p, ls). Write p ls) ws) \<longleftrightarrow> (p, ls) \<in> set ws"
  by (induction ws) auto

lemma set_key_order: "set (key_order text) = set (alt_markers text)"
  by (simp add: key_order_def)

lemma performed_entry:
  assumes "(p, recs) \<in> set (performed env fn text)"
  shows "\<exists>m \<in> nondefault_markers text. p = out_name fn m \<and> recs = merged text m"
proof -
  from assms have "(p, recs) \<in> set (outputs fn text)"
    by (auto simp: performed_def split: if_splits dest: set_takeWhileD)
  then show ?thesis
    by (auto simp: outputs_def nondefault_markers_def set_key_order)
qed

lemma split_pdb_Write:
  assumes "fs0 fn = Some text"
  shows "Write p recs \<in> set (trace (fst (split_pdb env fs0 fn))) \<longleftrightarrow> (p, recs) \<in> set (performed env fn text)"
  using Write_in_writes [of p recs "performed env fn text"]
  by (simp add: split_pdb_run [of fs0 fn "text", OF assms])

lemma split_pdb_written_paths:
  assumes "fs0 fn = Some text"
  shows "written_paths (trace (fst (split_pdb env fs0 fn))) = map fst (performed env fn text)"
  by (simp add: split_pdb_run [of fs0 fn "text", OF assms] written_paths_writes)

lemma split_pdb_files:
  assumes "fs0 fn = Some text"
  shows "files (fst (split_pdb env fs0 fn)) = apply_writes fs0 (performed env fn text)"
  by (simp add: split_pdb_run [of fs0 fn "text", OF assms])

lemma input_not_performed: "fn \<notin> fst ` set (performed env fn text)"
proof
  assume "fn \<in> fst ` set (performed env fn text)"
  then obtain recs where "(fn, recs) \<in> set (performed env fn text)" by auto
  then obtain m where "fn = out_name fn m" by (auto dest!: performed_entry)
  then show False using out_name_not_input [of fn m] by simp
qed

section \<open>Helper lemmas for the properties\<close>

lemma merged_alt:
  "merged text m = map blank_marker
      (filter (\<lambda>l. pos < length l \<and> (l ! pos = CHR '' '' \<or> l ! pos = m)) (atom_lines text))"
  unfolding merged_def by (rule arg_cong [where f = "map blank_marker"], rule filter_cong) auto

lemma performed_no_markers:
  assumes "nondefault_markers text = {}"
  shows "performed env fn text = []"
proof (cases "performed env fn text")
  case Nil
  then show ?thesis .
next
  case (Cons w ws)
  obtain p recs where "w = (p, recs)" by (cases w)
  with Cons have "(p, recs) \<in> set (performed env fn text)" by simp
  with assms show ?thesis by (auto dest!: performed_entry)
qed

lemma refusal_None:
  assumes "refusal env ws = None"
  shows "takeWhile (opens env) ws = ws"
proof (cases "dropWhile (opens env) ws")
  case Nil
  then show ?thesis by (simp add: dropWhile_eq_Nil_conv)
next
  case (Cons w rest)
  then have "dropWhile (opens env) ws \<noteq> []"
    by simp
  then have "\<not> opens env (hd (dropWhile (opens env) ws))"
    by (rule hd_dropWhile)
  with Cons assms show ?thesis by (simp add: refusal_def opens_def)
qed

lemma raised_None_performed:
  assumes "raised env fn text = None"
  shows "performed env fn text = outputs fn text"
proof (cases "CHR '' '' \<in> set (alt_markers text)")
  case True
  with assms have "refusal env (outputs fn text) = None"
      and "list_all (\<lambda>l. pos < length l) (atom_lines text)"
    by (auto simp: raised_def list_ex_iff list_all_iff split: if_splits)
  with True show ?thesis by (simp add: performed_def refusal_None)
next
  case False
  with assms have "alt_markers text = []"
    by (simp add: raised_def split: if_splits)
  then show ?thesis by (simp add: performed_def outputs_no_markers)
qed

lemma set_nondefault_keys:
  "set (filter (\<lambda>m. m \<noteq> CHR '' '') (key_order text)) = nondefault_markers text"
  by (auto simp: nondefault_markers_def set_key_order)

lemma card_out_names:
  "card (out_name fn ` S) = card ((\<lambda>m. lower [m]) ` S)"
proof -
  let ?g = "\<lambda>s. take (length fn - 4) fn @ ''_'' @ s @ ''.pdb''"
  have "out_name fn ` S = ?g ` (\<lambda>m. lower [m]) ` S"
    by (auto simp: out_name_def image_image)
  moreover have "inj_on ?g ((\<lambda>m. lower [m]) ` S)"
    by (rule inj_onI) simp
  ultimately show ?thesis by (simp add: card_image)
qed

lemma blank_marker_atom:
  assumes "is_atom l"
  shows "is_atom (blank_marker l)"
proof -
  have "take (length ''ATOM'') (l[pos := CHR '' '']) = take (length ''ATOM'') l"
    by (simp add: pos_def)
  with assms show ?thesis by (simp only: startswith_def blank_marker_def)
qed

lemma atom_lines_cong:
  assumes "atom_lines text1 = atom_lines text2"
  shows "performed env fn text1 = performed env fn text2" and "raised env fn text1 = raised env fn text2"
  using assms
  by (simp_all add: performed_def raised_def outputs_def merged_def key_order_def alt_markers_def)

lemma map_of_rev_last:
  assumes "m \<in> set ks"
  shows "map_of (rev (map (\<lambda>k. (g k, h k)) ks)) (g m) =
         Some (h (last (filter (\<lambda>k. g k = g m) ks)))"
  using assms
proof (induction ks rule: rev_induct)
  case Nil
  then show ?case by simp
next
  case (snoc k ks)
  show ?case
  proof (cases "g k = g m")
    case True
    then show ?thesis by simp
  next
    case False
    with snoc.prems have "m \<in> set ks" by auto
    with snoc.IH False show ?thesis by simp
  qed
qed

section \<open>Properties of \<^verbatim>\<open>split_pdb\<close>\<close>

text \<open>
  C1. Every output file holds the records of the default group and the records of the
  group of one non-default marker \<open>m\<close>, and nothing else: what is written to it is the
  list of the input's ATOM records whose marker is blank or \<open>m\<close>, in the order they have
  in the input, each with its marker blanked. So each record of the default group is in
  the file once, the default records keep their relative order, and the records of \<open>m\<close>
  stand between them where they stood in the input. The file named by the path holds
  such a list for one of the markers that are written to this path.
\<close>

theorem split_pdb_output_merges_default_group:
  assumes "fs0 fn = Some text"
    and "Write p recs \<in> set (trace (fst (split_pdb env fs0 fn)))"
  shows "(\<exists>m. m \<in> nondefault_markers text \<and> p = out_name fn m \<and>
            recs = map blank_marker
                     (filter (\<lambda>l. pos < length l \<and> (l ! pos = CHR '' '' \<or> l ! pos = m))
                        (atom_lines text))) \<and>
         (\<exists>m. m \<in> nondefault_markers text \<and> p = out_name fn m \<and>
            files (fst (split_pdb env fs0 fn)) p =
              Some (concat (map blank_marker
                     (filter (\<lambda>l. pos < length l \<and> (l ! pos = CHR '' '' \<or> l ! pos = m))
                        (atom_lines text)))))"
proof -
  from assms have mem: "(p, recs) \<in> set (performed env fn text)"
    by (simp add: split_pdb_Write)
  then obtain m where "m \<in> nondefault_markers text" "p = out_name fn m" "recs = merged text m"
    by (auto dest!: performed_entry)
  then have event: "\<exists>m. m \<in> nondefault_markers text \<and> p = out_name fn m \<and>
      recs = map blank_marker
        (filter (\<lambda>l. pos < length l \<and> (l ! pos = CHR '' '' \<or> l ! pos = m)) (atom_lines text))"
    by (auto simp: merged_alt)
  from mem have "p \<in> fst ` set (performed env fn text)"
    by force
  then obtain ls where ls: "(p, ls) \<in> set (performed env fn text)"
      "apply_writes fs0 (performed env fn text) p = Some (concat ls)"
    using apply_writes_written by blast
  from ls(1) obtain m' where "m' \<in> nondefault_markers text" "p = out_name fn m'"
      "ls = merged text m'"
    by (auto dest!: performed_entry)
  with ls(2) assms(1) have "\<exists>m. m \<in> nondefault_markers text \<and> p = out_name fn m \<and>
      files (fst (split_pdb env fs0 fn)) p =
        Some (concat (map blank_marker
          (filter (\<lambda>l. pos < length l \<and> (l ! pos = CHR '' '' \<or> l ! pos = m)) (atom_lines text))))"
    by (auto simp: merged_alt split_pdb_files)
  with event show ?thesis by blast
qed

theorem split_pdb_output_merges_default_group_witness:
  "[''1yrf.pdb'' \<mapsto> two_states] ''1yrf.pdb'' = Some two_states \<and>
   Write ''1yrf_b.pdb''
     [''ATOM      1  N   LEU\<newline>'', ''ATOM      3  CA  LEU\<newline>'', ''ATOM      4  C   LEU\<newline>'']
     \<in> set (trace (fst (split_pdb permissive [''1yrf.pdb'' \<mapsto> two_states] ''1yrf.pdb''))) \<and>
   (\<exists>m. m \<in> nondefault_markers two_states \<and> ''1yrf_b.pdb'' = out_name ''1yrf.pdb'' m \<and>
      [''ATOM      1  N   LEU\<newline>'', ''ATOM      3  CA  LEU\<newline>'', ''ATOM      4  C   LEU\<newline>''] =
        map blank_marker
          (filter (\<lambda>l. pos < length l \<and> (l ! pos = CHR '' '' \<or> l ! pos = m))
             (atom_lines two_states)))"
proof -
  have input: "[''1yrf.pdb'' \<mapsto> two_states] ''1yrf.pdb'' = Some two_states"
    by simp
  have event: "Write ''1yrf_b.pdb''
      [''ATOM      1  N   LEU\<newline>'', ''ATOM      3  CA  LEU\<newline>'', ''ATOM      4  C   LEU\<newline>'']
      \<in> set (trace (fst (split_pdb permissive [''1yrf.pdb'' \<mapsto> two_states] ''1yrf.pdb'')))"
    by code_simp
  from split_pdb_output_merges_default_group
    [of "[''1yrf.pdb'' \<mapsto> two_states]" "''1yrf.pdb''" two_states, OF input event]
  show ?thesis using input event by blast
qed

text \<open>
  C2. The claim counts one output file for each non-default marker. The markers \<open>A\<close>
  and \<open>a\<close> are written to the same path, so an input with both has two non-default
  markers and one output file; and an input with the marker \<open>A\<close> and no default group
  has one non-default marker and no output file, the call raising \<^verbatim>\<open>KeyError\<close>.
\<close>

theorem split_pdb_file_count_counterexample:
  "card (set (written_paths (trace (fst (split_pdb permissive
      [''1yrf.pdb'' \<mapsto> ''ATOM      1  N   LEU\<newline>ATOM      2  CA ALEU\<newline>ATOM      3  CA aLEU\<newline>'']
      ''1yrf.pdb''))))) = 1 \<and>
   card (nondefault_markers ''ATOM      1  N   LEU\<newline>ATOM      2  CA ALEU\<newline>ATOM      3  CA aLEU\<newline>'') = 2 \<and>
   snd (split_pdb permissive [''1yrf.pdb'' \<mapsto> ''ATOM      2  CA ALEU\<newline>''] ''1yrf.pdb'') = Some KeyError \<and>
   card (set (written_paths (trace (fst (split_pdb permissive
      [''1yrf.pdb'' \<mapsto> ''ATOM      2  CA ALEU\<newline>''] ''1yrf.pdb''))))) = 0 \<and>
   card (nondefault_markers ''ATOM      2  CA ALEU\<newline>'') = 1"
  by code_simp

text \<open>
  C2, amended. When the call returns without raising, the number of output files is the
  number of distinct lower-case forms of the non-default markers of the input's ATOM
  records.
\<close>

theorem split_pdb_file_count:
  assumes "fs0 fn = Some text"
    and "snd (split_pdb env fs0 fn) = None"
  shows "card (set (written_paths (trace (fst (split_pdb env fs0 fn))))) =
         card ((\<lambda>m. lower [m]) ` nondefault_markers text)"
proof -
  from assms have "raised env fn text = None"
    by (simp add: split_pdb_run [of fs0 fn "text"])
  then have "performed env fn text = outputs fn text"
    by (rule raised_None_performed)
  with assms(1) have "written_paths (trace (fst (split_pdb env fs0 fn))) = map fst (outputs fn text)"
    by (simp add: split_pdb_written_paths)
  also have "\<dots> = map (out_name fn) (filter (\<lambda>m. m \<noteq> CHR '' '') (key_order text))"
    by (simp add: outputs_def comp_def)
  finally have "set (written_paths (trace (fst (split_pdb env fs0 fn)))) =
      out_name fn ` nondefault_markers text"
    by (simp add: set_nondefault_keys del: set_filter)
  then show ?thesis by (simp only: card_out_names)
qed

theorem split_pdb_file_count_witness:
  "[''1yrf.pdb'' \<mapsto> case_clash] ''1yrf.pdb'' = Some case_clash \<and>
   snd (split_pdb permissive [''1yrf.pdb'' \<mapsto> case_clash] ''1yrf.pdb'') = None \<and>
   card (set (written_paths (trace (fst (split_pdb permissive [''1yrf.pdb'' \<mapsto> case_clash] ''1yrf.pdb''))))) =
     card ((\<lambda>m. lower [m]) ` nondefault_markers case_clash) \<and>
   card ((\<lambda>m. lower [m]) ` nondefault_markers case_clash) = 1"
proof -
  have input: "[''1yrf.pdb'' \<mapsto> case_clash] ''1yrf.pdb'' = Some case_clash"
    by simp
  have returns: "snd (split_pdb permissive [''1yrf.pdb'' \<mapsto> case_clash] ''1yrf.pdb'') = None"
    by code_simp
  have one: "card ((\<lambda>m. lower [m]) ` nondefault_markers case_clash) = 1"
    by code_simp
  from split_pdb_file_count
    [of "[''1yrf.pdb'' \<mapsto> case_clash]" "''1yrf.pdb''" case_clash, OF input returns]
  show ?thesis using input returns one by blast
qed

text \<open>
  C3. Every record written to an output file is an ATOM record of the input with the
  character at index 16, the marker, replaced by a blank: the records of one write are
  a selection of the input's lines, in their order, each changed in this way. Such a
  record has the length of the input record and its characters at every other index.
\<close>

theorem split_pdb_records_blanked:
  assumes "fs0 fn = Some text"
    and "Write p recs \<in> set (trace (fst (split_pdb env fs0 fn)))"
  shows "(\<exists>P. (\<forall>l. P l \<longrightarrow> startswith l ''ATOM'' \<and> 16 < length l) \<and>
            recs = map (\<lambda>l. l[16 := CHR '' '']) (filter P (file_lines text))) \<and>
         (\<forall>r \<in> set recs. \<exists>l \<in> set (file_lines text).
            startswith l ''ATOM'' \<and> 16 < length l \<and> length r = length l \<and>
            r ! 16 = CHR '' '' \<and> (\<forall>i < length l. i \<noteq> 16 \<longrightarrow> r ! i = l ! i))"
proof -
  from assms have "(p, recs) \<in> set (performed env fn text)"
    by (simp add: split_pdb_Write)
  then obtain m where "recs = merged text m"
    by (auto dest!: performed_entry)
  then have recs: "recs = map (\<lambda>l. l[16 := CHR '' ''])
      (filter (\<lambda>l. is_atom l \<and> 16 < length l \<and> (l ! 16 = m \<or> l ! 16 = CHR '' ''))
         (file_lines text))"
    by (simp add: merged_def atom_lines_def blank_marker_def [abs_def] pos_def conj_commute
        conj_left_commute)
  then have first: "\<exists>P. (\<forall>l. P l \<longrightarrow> startswith l ''ATOM'' \<and> 16 < length l) \<and>
      recs = map (\<lambda>l. l[16 := CHR '' '']) (filter P (file_lines text))"
    by (intro exI [where x = "\<lambda>l. is_atom l \<and> 16 < length l \<and> (l ! 16 = m \<or> l ! 16 = CHR '' '')"])
      simp
  have "\<forall>r \<in> set recs. \<exists>l \<in> set (file_lines text).
      startswith l ''ATOM'' \<and> 16 < length l \<and> length r = length l \<and>
      r ! 16 = CHR '' '' \<and> (\<forall>i < length l. i \<noteq> 16 \<longrightarrow> r ! i = l ! i)"
  proof
    fix r
    assume "r \<in> set recs"
    with recs obtain l where l: "l \<in> set (file_lines text)" "is_atom l" "16 < length l"
        "r = l[16 := CHR '' '']"
      by auto
    then show "\<exists>l \<in> set (file_lines text).
        startswith l ''ATOM'' \<and> 16 < length l \<and> length r = length l \<and>
        r ! 16 = CHR '' '' \<and> (\<forall>i < length l. i \<noteq> 16 \<longrightarrow> r ! i = l ! i)"
      by (intro bexI [where x = l]) simp_all
  qed
  with first show ?thesis by blast
qed

theorem split_pdb_records_blanked_witness:
  "[''1yrf.pdb'' \<mapsto> two_states] ''1yrf.pdb'' = Some two_states \<and>
   Write ''1yrf_a.pdb''
     [''ATOM      1  N   LEU\<newline>'', ''ATOM      2  CA  LEU\<newline>'', ''ATOM      4  C   LEU\<newline>'']
     \<in> set (trace (fst (split_pdb permissive [''1yrf.pdb'' \<mapsto> two_states] ''1yrf.pdb''))) \<and>
   (\<exists>l \<in> set (file_lines two_states).
      startswith l ''ATOM'' \<and> 16 < length l \<and>
      length ''ATOM      2  CA  LEU\<newline>'' = length l \<and>
      ''ATOM      2  CA  LEU\<newline>'' ! 16 = CHR '' '' \<and>
      (\<forall>i < length l. i \<noteq> 16 \<longrightarrow> ''ATOM      2  CA  LEU\<newline>'' ! i = l ! i))"
proof -
  have input: "[''1yrf.pdb'' \<mapsto> two_states] ''1yrf.pdb'' = Some two_states"
    by simp
  have event: "Write ''1yrf_a.pdb''
      [''ATOM      1  N   LEU\<newline>'', ''ATOM      2  CA  LEU\<newline>'', ''ATOM      4  C   LEU\<newline>'']
      \<in> set (trace (fst (split_pdb permissive [''1yrf.pdb'' \<mapsto> two_states] ''1yrf.pdb'')))"
    by code_simp
  have "''ATOM      2  CA  LEU\<newline>'' \<in>
      set [''ATOM      1  N   LEU\<newline>'', ''ATOM      2  CA  LEU\<newline>'', ''ATOM      4  C   LEU\<newline>'']"
    by simp
  with split_pdb_records_blanked
    [of "[''1yrf.pdb'' \<mapsto> two_states]" "''1yrf.pdb''" two_states, OF input event]
  show ?thesis using input event by blast
qed

text \<open>
  C4. A second call on the files the first call left does what the first call did: it
  reads and writes the same, raises the same or nothing, and leaves the files as it
  found them. What a call reads, writes and raises depends on the text of the input file
  alone, the operating system answering alike: on two file systems that hold the same
  text at the input path, the calls perform the same events, end alike and leave the
  same text in every file they write.
\<close>

theorem split_pdb_rerun:
  "split_pdb env (files (fst (split_pdb env fs0 fn))) fn = split_pdb env fs0 fn \<and>
   (fs1 fn = fs0 fn \<longrightarrow>
      trace (fst (split_pdb env fs1 fn)) = trace (fst (split_pdb env fs0 fn)) \<and>
      snd (split_pdb env fs1 fn) = snd (split_pdb env fs0 fn) \<and>
      (\<forall>p \<in> set (written_paths (trace (fst (split_pdb env fs0 fn)))).
         files (fst (split_pdb env fs1 fn)) p = files (fst (split_pdb env fs0 fn)) p))"
proof (cases "fs0 fn")
  case None
  then show ?thesis by (simp add: split_pdb_def)
next
  case (Some t)
  let ?ws = "performed env fn t"
  have run0: "split_pdb env fs0 fn =
      (\<lparr>files = apply_writes fs0 ?ws, trace = Read fn # map (\<lambda>(p, ls). Write p ls) ?ws\<rparr>,
       raised env fn t)"
    using Some by (rule split_pdb_run)
  have "fn \<notin> fst ` set ?ws"
    by (rule input_not_performed)
  then have "apply_writes fs0 ?ws fn = Some t"
    using Some by (simp add: apply_writes_other)
  then have "split_pdb env (apply_writes fs0 ?ws) fn =
      (\<lparr>files = apply_writes (apply_writes fs0 ?ws) ?ws,
        trace = Read fn # map (\<lambda>(p, ls). Write p ls) ?ws\<rparr>, raised env fn t)"
    by (rule split_pdb_run)
  then have again: "split_pdb env (files (fst (split_pdb env fs0 fn))) fn = split_pdb env fs0 fn"
    by (simp add: run0 apply_writes_twice)
  have "trace (fst (split_pdb env fs1 fn)) = trace (fst (split_pdb env fs0 fn)) \<and>
      snd (split_pdb env fs1 fn) = snd (split_pdb env fs0 fn) \<and>
      (\<forall>p \<in> set (written_paths (trace (fst (split_pdb env fs0 fn)))).
         files (fst (split_pdb env fs1 fn)) p = files (fst (split_pdb env fs0 fn)) p)"
    if same: "fs1 fn = fs0 fn"
  proof -
    from same Some have "fs1 fn = Some t" by simp
    then have run1: "split_pdb env fs1 fn =
        (\<lparr>files = apply_writes fs1 ?ws, trace = Read fn # map (\<lambda>(p, ls). Write p ls) ?ws\<rparr>,
         raised env fn t)"
      by (rule split_pdb_run)
    have "apply_writes fs1 ?ws p = apply_writes fs0 ?ws p" if "p \<in> set (map fst ?ws)" for p
    proof -
      from that have "map_of (rev ?ws) p \<noteq> None"
        by (simp add: map_of_eq_None_iff)
      then show ?thesis by (auto simp: apply_writes_lookup)
    qed
    then show ?thesis by (simp add: run0 run1 written_paths_writes)
  qed
  with again show ?thesis by blast
qed

theorem split_pdb_rerun_witness:
  "[''1yrf.pdb'' \<mapsto> two_states, ''1yrf_a.pdb'' \<mapsto> ''old''] ''1yrf.pdb'' =
     [''1yrf.pdb'' \<mapsto> two_states] ''1yrf.pdb'' \<and>
   split_pdb permissive (files (fst (split_pdb permissive [''1yrf.pdb'' \<mapsto> two_states] ''1yrf.pdb''))) ''1yrf.pdb'' =
     split_pdb permissive [''1yrf.pdb'' \<mapsto> two_states] ''1yrf.pdb'' \<and>
   trace (fst (split_pdb permissive [''1yrf.pdb'' \<mapsto> two_states, ''1yrf_a.pdb'' \<mapsto> ''old''] ''1yrf.pdb'')) =
     trace (fst (split_pdb permissive [''1yrf.pdb'' \<mapsto> two_states] ''1yrf.pdb'')) \<and>
   snd (split_pdb permissive [''1yrf.pdb'' \<mapsto> two_states, ''1yrf_a.pdb'' \<mapsto> ''old''] ''1yrf.pdb'') =
     snd (split_pdb permissive [''1yrf.pdb'' \<mapsto> two_states] ''1yrf.pdb'') \<and>
   files (fst (split_pdb permissive [''1yrf.pdb'' \<mapsto> two_states, ''1yrf_a.pdb'' \<mapsto> ''old''] ''1yrf.pdb''))
     ''1yrf_a.pdb'' =
     files (fst (split_pdb permissive [''1yrf.pdb'' \<mapsto> two_states] ''1yrf.pdb'')) ''1yrf_a.pdb''"
proof -
  let ?fs0 = "[''1yrf.pdb'' \<mapsto> two_states]"
  let ?fs1 = "[''1yrf.pdb'' \<mapsto> two_states, ''1yrf_a.pdb'' \<mapsto> ''old'']"
  have same: "?fs1 ''1yrf.pdb'' = ?fs0 ''1yrf.pdb''"
    by simp
  have paths: "''1yrf_a.pdb'' \<in> set (written_paths (trace (fst (split_pdb permissive ?fs0 ''1yrf.pdb''))))"
    by code_simp
  from split_pdb_rerun [of permissive ?fs0 "''1yrf.pdb''" ?fs1] same paths
  show ?thesis by blast
qed

text \<open>
  C5. When no ATOM record of the input carries a non-blank marker, no file is written
  and the files are as they were, whether the call returns or raises.
\<close>

theorem split_pdb_no_alternates:
  assumes "fs0 fn = Some text"
    and "\<forall>l \<in> set (file_lines text). startswith l ''ATOM'' \<and> pos < length l \<longrightarrow> l ! pos = CHR '' ''"
  shows "written_paths (trace (fst (split_pdb env fs0 fn))) = [] \<and>
         files (fst (split_pdb env fs0 fn)) = fs0"
proof -
  from assms(2) have "nondefault_markers text = {}"
    by (auto simp: nondefault_markers_def alt_markers_def atom_lines_def filter_empty_conv)
  then have "performed env fn text = []"
    by (rule performed_no_markers)
  with assms(1) show ?thesis
    by (simp add: split_pdb_written_paths split_pdb_files apply_writes_Nil)
qed

theorem split_pdb_no_alternates_witness:
  "[''1yrf.pdb'' \<mapsto> no_alternates] ''1yrf.pdb'' = Some no_alternates \<and>
   filter (\<lambda>m. m \<noteq> CHR '' '') (alt_markers no_alternates) = [] \<and>
   written_paths (trace (fst (split_pdb permissive [''1yrf.pdb'' \<mapsto> no_alternates] ''1yrf.pdb''))) = [] \<and>
   files (fst (split_pdb permissive [''1yrf.pdb'' \<mapsto> no_alternates] ''1yrf.pdb'')) =
     [''1yrf.pdb'' \<mapsto> no_alternates]"
proof -
  have input: "[''1yrf.pdb'' \<mapsto> no_alternates] ''1yrf.pdb'' = Some no_alternates"
    by simp
  have blank: "\<forall>l \<in> set (file_lines no_alternates).
      startswith l ''ATOM'' \<and> pos < length l \<longrightarrow> l ! pos = CHR '' ''"
    by code_simp
  have none: "filter (\<lambda>m. m \<noteq> CHR '' '') (alt_markers no_alternates) = []"
    by code_simp
  from split_pdb_no_alternates
    [of "[''1yrf.pdb'' \<mapsto> no_alternates]" "''1yrf.pdb''" no_alternates permissive,
      OF input blank]
  show ?thesis using input none by blast
qed

text \<open>
  C6. The claim has every malformed line skipped. The only check is on the first four
  characters: a line that starts with \<^verbatim>\<open>ATOM\<close> and has no character at index 16
  makes the call raise \<^verbatim>\<open>IndexError\<close>, and a line of prose that starts with
  \<^verbatim>\<open>ATOM\<close> is written to an output file like a record.
\<close>

theorem split_pdb_malformed_atom_counterexample:
  "snd (split_pdb permissive [''1yrf.pdb'' \<mapsto> ''ATOM\<newline>''] ''1yrf.pdb'') = Some IndexError \<and>
   trace (fst (split_pdb permissive
     [''1yrf.pdb'' \<mapsto> ''ATOM      1  N   LEU\<newline>ATOMIC WEIGHTS: A LIST\<newline>''] ''1yrf.pdb'')) =
     [Read ''1yrf.pdb'',
      Write ''1yrf_a.pdb'' [''ATOM      1  N   LEU\<newline>'', ''ATOMIC WEIGHTS:   LIST\<newline>'']]"
  by code_simp

text \<open>
  C6, amended. Lines that do not start with \<^verbatim>\<open>ATOM\<close> are skipped silently: on two
  inputs with the same lines that start with \<^verbatim>\<open>ATOM\<close>, in the same order, the calls
  raise the same exception or none and write the same records to the same files, and
  every record written starts with \<^verbatim>\<open>ATOM\<close>, so no other line is in any output.
\<close>

theorem split_pdb_skips_other_lines:
  assumes "fs1 fn = Some text1"
    and "fs2 fn = Some text2"
    and "filter (\<lambda>l. startswith l ''ATOM'') (file_lines text1) =
         filter (\<lambda>l. startswith l ''ATOM'') (file_lines text2)"
  shows "snd (split_pdb env fs1 fn) = snd (split_pdb env fs2 fn) \<and>
         trace (fst (split_pdb env fs1 fn)) = trace (fst (split_pdb env fs2 fn)) \<and>
         (\<forall>p recs r. Write p recs \<in> set (trace (fst (split_pdb env fs1 fn))) \<and> r \<in> set recs \<longrightarrow>
            startswith r ''ATOM'')"
proof -
  from assms(3) have atoms: "atom_lines text1 = atom_lines text2"
    by (simp add: atom_lines_def)
  have run1: "split_pdb env fs1 fn =
      (\<lparr>files = apply_writes fs1 (performed env fn text1),
        trace = Read fn # map (\<lambda>(p, ls). Write p ls) (performed env fn text1)\<rparr>, raised env fn text1)"
    using assms(1) by (rule split_pdb_run)
  have run2: "split_pdb env fs2 fn =
      (\<lparr>files = apply_writes fs2 (performed env fn text2),
        trace = Read fn # map (\<lambda>(p, ls). Write p ls) (performed env fn text2)\<rparr>, raised env fn text2)"
    using assms(2) by (rule split_pdb_run)
  have "startswith r ''ATOM''"
    if "Write p recs \<in> set (trace (fst (split_pdb env fs1 fn)))" and "r \<in> set recs" for p recs r
  proof -
    from that(1) assms(1) have "(p, recs) \<in> set (performed env fn text1)"
      by (simp add: split_pdb_Write)
    then obtain m where "recs = merged text1 m"
      by (auto dest!: performed_entry)
    with that(2) obtain l where "is_atom l" "r = blank_marker l"
      by (auto simp: merged_def atom_lines_def)
    then show ?thesis by (simp add: blank_marker_atom)
  qed
  then show ?thesis
    by (simp add: run1 run2 atom_lines_cong [OF atoms]) blast
qed

theorem split_pdb_skips_other_lines_witness:
  "[''1yrf.pdb'' \<mapsto> two_states] ''1yrf.pdb'' = Some two_states \<and>
   [''1yrf.pdb'' \<mapsto> ''ATOM      1  N   LEU\<newline>ATOM      2  CA ALEU\<newline>REMARK\<newline>ATOM      3  CA BLEU\<newline>ATOM      4  C   LEU\<newline>'']
     ''1yrf.pdb'' =
     Some ''ATOM      1  N   LEU\<newline>ATOM      2  CA ALEU\<newline>REMARK\<newline>ATOM      3  CA BLEU\<newline>ATOM      4  C   LEU\<newline>'' \<and>
   filter (\<lambda>l. startswith l ''ATOM'') (file_lines two_states) =
     filter (\<lambda>l. startswith l ''ATOM'')
       (file_lines ''ATOM      1  N   LEU\<newline>ATOM      2  CA ALEU\<newline>REMARK\<newline>ATOM      3  CA BLEU\<newline>ATOM      4  C   LEU\<newline>'') \<and>
   snd (split_pdb permissive [''1yrf.pdb'' \<mapsto> two_states] ''1yrf.pdb'') =
     snd (split_pdb permissive
       [''1yrf.pdb'' \<mapsto> ''ATOM      1  N   LEU\<newline>ATOM      2  CA ALEU\<newline>REMARK\<newline>ATOM      3  CA BLEU\<newline>ATOM      4  C   LEU\<newline>'']
       ''1yrf.pdb'') \<and>
   trace (fst (split_pdb permissive [''1yrf.pdb'' \<mapsto> two_states] ''1yrf.pdb'')) =
     trace (fst (split_pdb permissive
       [''1yrf.pdb'' \<mapsto> ''ATOM      1  N   LEU\<newline>ATOM      2  CA ALEU\<newline>REMARK\<newline>ATOM      3  CA BLEU\<newline>ATOM      4  C   LEU\<newline>'']
       ''1yrf.pdb''))"
proof -
  let ?t = "''ATOM      1  N   LEU\<newline>ATOM      2  CA ALEU\<newline>REMARK\<newline>ATOM      3  CA BLEU\<newline>ATOM      4  C   LEU\<newline>''"
  have input1: "[''1yrf.pdb'' \<mapsto> two_states] ''1yrf.pdb'' = Some two_states"
    by simp
  have input2: "[''1yrf.pdb'' \<mapsto> ?t] ''1yrf.pdb'' = Some ?t"
    by simp
  have atoms: "filter (\<lambda>l. startswith l ''ATOM'') (file_lines two_states) =
      filter (\<lambda>l. startswith l ''ATOM'') (file_lines ?t)"
    by code_simp
  from split_pdb_skips_other_lines
    [of "[''1yrf.pdb'' \<mapsto> two_states]" "''1yrf.pdb''" two_states "[''1yrf.pdb'' \<mapsto> ?t]" ?t
      permissive,
      OF input1 input2 atoms]
  show ?thesis using input1 input2 atoms by blast
qed

text \<open>
  C7. The input file is read once and never written: after the call it holds the text
  it held before. Every write goes to the output path of a non-default marker, which is
  not the path of the input; the file at such a path then holds what the call wrote to
  it and nothing of what it may have held before; every other file is as it was.
\<close>

theorem split_pdb_input_untouched:
  assumes "fs0 fn = Some text"
  shows "files (fst (split_pdb env fs0 fn)) fn = Some text \<and>
         read_paths (trace (fst (split_pdb env fs0 fn))) = [fn] \<and>
         fn \<notin> set (written_paths (trace (fst (split_pdb env fs0 fn)))) \<and>
         (\<forall>p \<in> set (written_paths (trace (fst (split_pdb env fs0 fn)))).
            (\<exists>m \<in> nondefault_markers text. p = out_name fn m) \<and>
            (\<exists>ls. Write p ls \<in> set (trace (fst (split_pdb env fs0 fn))) \<and>
               files (fst (split_pdb env fs0 fn)) p = Some (concat ls))) \<and>
         (\<forall>p. p \<notin> set (written_paths (trace (fst (split_pdb env fs0 fn)))) \<longrightarrow>
            files (fst (split_pdb env fs0 fn)) p = fs0 p)"
proof -
  let ?ws = "performed env fn text"
  have paths: "written_paths (trace (fst (split_pdb env fs0 fn))) = map fst ?ws"
    using assms by (rule split_pdb_written_paths)
  have fs: "files (fst (split_pdb env fs0 fn)) = apply_writes fs0 ?ws"
    using assms by (rule split_pdb_files)
  have other: "\<forall>p. p \<notin> set (map fst ?ws) \<longrightarrow> apply_writes fs0 ?ws p = fs0 p"
    by (simp add: apply_writes_other)
  have not_input: "fn \<notin> set (map fst ?ws)"
    using input_not_performed [of fn env "text"] by simp
  have kept: "apply_writes fs0 ?ws fn = Some text"
    using other not_input assms by simp
  have reads: "read_paths (trace (fst (split_pdb env fs0 fn))) = [fn]"
    by (simp add: split_pdb_run [of fs0 fn "text", OF assms] read_paths_writes)
  have written: "\<forall>p \<in> set (map fst ?ws).
      (\<exists>m \<in> nondefault_markers text. p = out_name fn m) \<and>
      (\<exists>ls. Write p ls \<in> set (trace (fst (split_pdb env fs0 fn))) \<and>
         apply_writes fs0 ?ws p = Some (concat ls))"
  proof
    fix p
    assume "p \<in> set (map fst ?ws)"
    then have "p \<in> fst ` set ?ws" by simp
    then obtain ls where ls: "(p, ls) \<in> set ?ws" "apply_writes fs0 ?ws p = Some (concat ls)"
      using apply_writes_written by blast
    from ls(1) have "\<exists>m \<in> nondefault_markers text. p = out_name fn m"
      by (auto dest!: performed_entry)
    moreover from ls(1) have "Write p ls \<in> set (trace (fst (split_pdb env fs0 fn)))"
      using assms by (simp add: split_pdb_Write)
    ultimately show "(\<exists>m \<in> nondefault_markers text. p = out_name fn m) \<and>
        (\<exists>ls. Write p ls \<in> set (trace (fst (split_pdb env fs0 fn))) \<and>
           apply_writes fs0 ?ws p = Some (concat ls))"
      using ls(2) by blast
  qed
  show ?thesis
    unfolding paths fs using kept reads [unfolded paths fs] not_input written other
    by (simp only: reads simp_thms)
qed

theorem split_pdb_input_untouched_witness:
  "[''1yrf.pdb'' \<mapsto> two_states, ''notes.txt'' \<mapsto> ''keep''] ''1yrf.pdb'' = Some two_states \<and>
   files (fst (split_pdb permissive [''1yrf.pdb'' \<mapsto> two_states, ''notes.txt'' \<mapsto> ''keep''] ''1yrf.pdb''))
     ''1yrf.pdb'' = Some two_states \<and>
   read_paths (trace (fst (split_pdb permissive [''1yrf.pdb'' \<mapsto> two_states, ''notes.txt'' \<mapsto> ''keep'']
     ''1yrf.pdb''))) = [''1yrf.pdb''] \<and>
   written_paths (trace (fst (split_pdb permissive [''1yrf.pdb'' \<mapsto> two_states, ''notes.txt'' \<mapsto> ''keep'']
     ''1yrf.pdb''))) = [''1yrf_a.pdb'', ''1yrf_b.pdb''] \<and>
   (\<exists>m \<in> nondefault_markers two_states. ''1yrf_b.pdb'' = out_name ''1yrf.pdb'' m) \<and>
   files (fst (split_pdb permissive [''1yrf.pdb'' \<mapsto> two_states, ''notes.txt'' \<mapsto> ''keep''] ''1yrf.pdb''))
     ''notes.txt'' = Some ''keep''"
proof -
  let ?fs = "[''1yrf.pdb'' \<mapsto> two_states, ''notes.txt'' \<mapsto> ''keep'']"
  have input: "?fs ''1yrf.pdb'' = Some two_states"
    by simp
  have paths: "written_paths (trace (fst (split_pdb permissive ?fs ''1yrf.pdb''))) =
      [''1yrf_a.pdb'', ''1yrf_b.pdb'']"
    by code_simp
  note run = split_pdb_input_untouched [of ?fs "''1yrf.pdb''" two_states permissive, OF input]
  from run have kept: "files (fst (split_pdb permissive ?fs ''1yrf.pdb'')) ''1yrf.pdb'' = Some two_states"
    and reads: "read_paths (trace (fst (split_pdb permissive ?fs ''1yrf.pdb''))) = [''1yrf.pdb'']"
    by blast+
  from run paths have "\<exists>m \<in> nondefault_markers two_states. ''1yrf_b.pdb'' = out_name ''1yrf.pdb'' m"
    by simp
  moreover from run paths have "files (fst (split_pdb permissive ?fs ''1yrf.pdb'')) ''notes.txt'' = ?fs ''notes.txt''"
    by simp
  then have "files (fst (split_pdb permissive ?fs ''1yrf.pdb'')) ''notes.txt'' = Some ''keep''"
    by simp
  ultimately show ?thesis using input kept reads paths by blast
qed

text \<open>
  C9. The claim has the call raise \<^verbatim>\<open>KeyError\<close> whenever some ATOM record has a
  non-blank marker and none has a blank one. With a line that starts with \<^verbatim>\<open>ATOM\<close>
  and is too short to have a marker, the first loop raises \<^verbatim>\<open>IndexError\<close> before
  the default group is looked up.
\<close>

theorem split_pdb_short_line_counterexample:
  "atom_lines ''ATOM      2  CA ALEU\<newline>ATOM\<newline>'' = [''ATOM      2  CA ALEU\<newline>'', ''ATOM\<newline>''] \<and>
   alt_markers ''ATOM      2  CA ALEU\<newline>ATOM\<newline>'' = ''A'' \<and>
   snd (split_pdb permissive [''1yrf.pdb'' \<mapsto> ''ATOM      2  CA ALEU\<newline>ATOM\<newline>''] ''1yrf.pdb'') =
     Some IndexError"
  by code_simp

text \<open>
  C9, amended. When every line that starts with \<^verbatim>\<open>ATOM\<close> is long enough to have a
  marker, some ATOM record has a non-blank marker and none has a blank one, the call
  raises \<^verbatim>\<open>KeyError\<close>, writes no file and leaves the files as they were.
\<close>

theorem split_pdb_missing_default:
  assumes "fs0 fn = Some text"
    and "\<forall>l \<in> set (atom_lines text). pos < length l"
    and "\<exists>l \<in> set (atom_lines text). l ! pos \<noteq> CHR '' ''"
    and "\<forall>l \<in> set (atom_lines text). l ! pos \<noteq> CHR '' ''"
  shows "snd (split_pdb env fs0 fn) = Some KeyError \<and>
         written_paths (trace (fst (split_pdb env fs0 fn))) = [] \<and>
         files (fst (split_pdb env fs0 fn)) = fs0"
proof -
  from assms(2) have markers: "alt_markers text = map (\<lambda>l. l ! pos) (atom_lines text)"
    by (simp add: alt_markers_def)
  from assms(3) have "atom_lines text \<noteq> []"
    by auto
  with markers have some: "alt_markers text \<noteq> []"
    by simp
  from assms(4) markers have no_default: "CHR '' '' \<notin> set (alt_markers text)"
    by auto
  from assms(2) have "\<not> list_ex (\<lambda>l. length l \<le> pos) (atom_lines text)"
    by (auto simp: list_ex_iff)
  with some no_default have "raised env fn text = Some KeyError"
    by (simp add: raised_def)
  moreover from no_default have "performed env fn text = []"
    by (simp add: performed_def)
  ultimately show ?thesis
    using assms(1)
    by (simp add: split_pdb_run [of fs0 fn "text"] apply_writes_Nil)
qed

theorem split_pdb_missing_default_witness:
  "[''1yrf.pdb'' \<mapsto> only_alternate] ''1yrf.pdb'' = Some only_alternate \<and>
   atom_lines only_alternate = [''ATOM      2  CA ALEU\<newline>''] \<and>
   snd (split_pdb permissive [''1yrf.pdb'' \<mapsto> only_alternate] ''1yrf.pdb'') = Some KeyError \<and>
   written_paths (trace (fst (split_pdb permissive [''1yrf.pdb'' \<mapsto> only_alternate] ''1yrf.pdb''))) = [] \<and>
   files (fst (split_pdb permissive [''1yrf.pdb'' \<mapsto> only_alternate] ''1yrf.pdb'')) =
     [''1yrf.pdb'' \<mapsto> only_alternate]"
proof -
  have input: "[''1yrf.pdb'' \<mapsto> only_alternate] ''1yrf.pdb'' = Some only_alternate"
    by simp
  have atoms: "atom_lines only_alternate = [''ATOM      2  CA ALEU\<newline>'']"
    by code_simp
  have long: "\<forall>l \<in> set (atom_lines only_alternate). pos < length l"
    by code_simp
  have some: "\<exists>l \<in> set (atom_lines only_alternate). l ! pos \<noteq> CHR '' ''"
    by code_simp
  have all: "\<forall>l \<in> set (atom_lines only_alternate). l ! pos \<noteq> CHR '' ''"
    by code_simp
  from split_pdb_missing_default
    [of "[''1yrf.pdb'' \<mapsto> only_alternate]" "''1yrf.pdb''" only_alternate permissive,
      OF input long some all]
  show ?thesis using input atoms by blast
qed

text \<open>
  C10. The claim has the output of every non-default marker written. For the marker
  \<open>A\<close> of an input with no default group nothing is written, the call raising
  \<^verbatim>\<open>KeyError\<close>; and for a marker of code 0 nothing is written, the call raising
  \<^verbatim>\<open>ValueError\<close> when it opens the output path.
\<close>

theorem split_pdb_output_names_counterexample:
  "CHR ''A'' \<in> nondefault_markers ''ATOM      2  CA ALEU\<newline>'' \<and>
   snd (split_pdb permissive [''1yrf.pdb'' \<mapsto> ''ATOM      2  CA ALEU\<newline>''] ''1yrf.pdb'') =
     Some KeyError \<and>
   trace (fst (split_pdb permissive [''1yrf.pdb'' \<mapsto> ''ATOM      2  CA ALEU\<newline>'']
     ''1yrf.pdb'')) = [Read ''1yrf.pdb''] \<and>
   files (fst (split_pdb permissive [''1yrf.pdb'' \<mapsto> ''ATOM      2  CA ALEU\<newline>'']
     ''1yrf.pdb'')) ''1yrf_a.pdb'' = None \<and>
   CHR 0x00 \<in> nondefault_markers
     (''ATOM      1  N   LEU\<newline>ATOM      2  CA '' @ [CHR 0x00] @ ''LEU\<newline>'') \<and>
   snd (split_pdb permissive
     [''1yrf.pdb'' \<mapsto> ''ATOM      1  N   LEU\<newline>ATOM      2  CA '' @ [CHR 0x00] @ ''LEU\<newline>'']
     ''1yrf.pdb'') = Some ValueError \<and>
   trace (fst (split_pdb permissive
     [''1yrf.pdb'' \<mapsto> ''ATOM      1  N   LEU\<newline>ATOM      2  CA '' @ [CHR 0x00] @ ''LEU\<newline>'']
     ''1yrf.pdb'')) = [Read ''1yrf.pdb'']"
  by code_simp

text \<open>
  C10, amended. When the call returns without raising, it writes, for each non-default
  marker in the order of first occurrence, the merged records of the marker to the path
  made of the input's name without its last four characters, an underscore, the
  lower-case form of the marker and \<^verbatim>\<open>.pdb\<close>. Markers with the same lower-case form
  are written to the same path, and the file there ends up with the records of the one
  among them that occurs first latest in the input.
\<close>

theorem split_pdb_output_names:
  assumes "fs0 fn = Some text"
    and "snd (split_pdb env fs0 fn) = None"
    and "m \<in> nondefault_markers text"
  shows "Write (take (length fn - 4) fn @ ''_'' @ lower [m] @ ''.pdb'') (merged text m)
           \<in> set (trace (fst (split_pdb env fs0 fn))) \<and>
         trace (fst (split_pdb env fs0 fn)) =
           Read fn #
           map (\<lambda>k. Write (take (length fn - 4) fn @ ''_'' @ lower [k] @ ''.pdb'') (merged text k))
             (filter (\<lambda>k. k \<noteq> CHR '' '') (key_order text)) \<and>
         files (fst (split_pdb env fs0 fn)) (take (length fn - 4) fn @ ''_'' @ lower [m] @ ''.pdb'') =
           Some (concat (merged text
             (last (filter (\<lambda>k. lower [k] = lower [m])
               (filter (\<lambda>k. k \<noteq> CHR '' '') (key_order text))))))"
proof -
  let ?ks = "filter (\<lambda>k. k \<noteq> CHR '' '') (key_order text)"
  from assms(1,2) have "raised env fn text = None"
    by (simp add: split_pdb_run [of fs0 fn "text"])
  then have ws: "performed env fn text = map (\<lambda>k. (out_name fn k, merged text k)) ?ks"
    by (simp add: raised_None_performed outputs_def)
  from assms(3) have m: "m \<in> set ?ks"
    by (simp only: set_nondefault_keys)
  have events: "trace (fst (split_pdb env fs0 fn)) =
      Read fn # map (\<lambda>k. Write (out_name fn k) (merged text k)) ?ks"
    using assms(1) by (simp add: split_pdb_run [of fs0 fn "text"] ws comp_def)
  from m have event: "Write (out_name fn m) (merged text m) \<in> set (trace (fst (split_pdb env fs0 fn)))"
    unfolding events by (intro list.set_intros(2)) (simp only: set_map, rule imageI)
  have "map_of (rev (map (\<lambda>k. (out_name fn k, merged text k)) ?ks)) (out_name fn m) =
      Some (merged text (last (filter (\<lambda>k. out_name fn k = out_name fn m) ?ks)))"
    using m by (rule map_of_rev_last)
  then have "apply_writes fs0 (performed env fn text) (out_name fn m) =
      Some (concat (merged text (last (filter (\<lambda>k. lower [k] = lower [m]) ?ks))))"
    by (simp add: apply_writes_lookup ws out_name_eq_iff)
  with assms(1) have final: "files (fst (split_pdb env fs0 fn)) (out_name fn m) =
      Some (concat (merged text (last (filter (\<lambda>k. lower [k] = lower [m]) ?ks))))"
    by (simp add: split_pdb_files)
  show ?thesis
    using event events final unfolding out_name_def by (intro conjI) assumption+
qed

theorem split_pdb_output_names_witness:
  "[''1yrf.pdb'' \<mapsto> case_clash] ''1yrf.pdb'' = Some case_clash \<and>
   snd (split_pdb permissive [''1yrf.pdb'' \<mapsto> case_clash] ''1yrf.pdb'') = None \<and>
   CHR ''A'' \<in> nondefault_markers case_clash \<and>
   Write ''1yrf_a.pdb'' [''ATOM      1  N   LEU\<newline>'', ''ATOM      2  CA  LEU\<newline>'']
     \<in> set (trace (fst (split_pdb permissive [''1yrf.pdb'' \<mapsto> case_clash] ''1yrf.pdb''))) \<and>
   files (fst (split_pdb permissive [''1yrf.pdb'' \<mapsto> case_clash] ''1yrf.pdb'')) ''1yrf_a.pdb'' =
     Some ''ATOM      1  N   LEU\<newline>ATOM      3  CA  LEU\<newline>''"
proof -
  have input: "[''1yrf.pdb'' \<mapsto> case_clash] ''1yrf.pdb'' = Some case_clash"
    by simp
  have returns: "snd (split_pdb permissive [''1yrf.pdb'' \<mapsto> case_clash] ''1yrf.pdb'') = None"
    by code_simp
  have marker: "CHR ''A'' \<in> nondefault_markers case_clash"
    by code_simp
  have path: "take (length ''1yrf.pdb'' - 4) ''1yrf.pdb'' @ ''_'' @ lower [CHR ''A''] @ ''.pdb'' =
      ''1yrf_a.pdb''"
    by code_simp
  have recs: "merged case_clash CHR ''A'' =
      [''ATOM      1  N   LEU\<newline>'', ''ATOM      2  CA  LEU\<newline>'']"
    by code_simp
  have final: "concat (merged case_clash
      (last (filter (\<lambda>k. lower [k] = lower [CHR ''A''])
        (filter (\<lambda>k. k \<noteq> CHR '' '') (key_order case_clash))))) =
      ''ATOM      1  N   LEU\<newline>ATOM      3  CA  LEU\<newline>''"
    by code_simp
  from split_pdb_output_names
    [of "[''1yrf.pdb'' \<mapsto> case_clash]" "''1yrf.pdb''" case_clash permissive "CHR ''A''",
      OF input returns marker]
  show ?thesis
    unfolding path recs final using input returns marker by (intro conjI) blast+
qed

end
